theory Spec2Isabelle
  imports Complex_Main "HOL-Library.Word"
begin

section \<open>The circular buffer of samples\<close>

text \<open>
  \<^verbatim>\<open>Filter.c\<close> stores coefficients and history in four \<^verbatim>\<open>Ring_Buffer_Float_t\<close>
  objects and touches them only through the \<^verbatim>\<open>rb_*_F\<close> functions. Their
  implementation lives in another file of the repository; what follows is their
  contract. A buffer is represented by its logical contents, oldest element first. The
  capacity is one constant of the buffer type, shared by every buffer (also by the
  temporary ones that \<^verbatim>\<open>Filter_ShiftBy\<close> puts on the stack), so it is a parameter
  \<open>cap\<close> of every operation that can insert.

  The samples are C \<^verbatim>\<open>float\<close>s. The development never relies on an algebraic law
  of the sample arithmetic unless a statement says so: the sample type \<open>'a\<close> only
  has to provide \<open>0\<close>, \<open>+\<close>, \<open>-\<close>, \<open>*\<close> and \<open>/\<close>, and every product and sum is
  formed in the order in which the C code forms it. The results therefore hold for
  single-precision arithmetic as well as for exact arithmetic.
\<close>

datatype filter_error =
    Capacity_Error        \<comment> \<open>insertion into a full buffer\<close>
  | Underflow_Error       \<comment> \<open>removal from an empty buffer\<close>
  | Index_Error           \<comment> \<open>indexed read outside the stored elements\<close>
  | Coeff_Out_Of_Range    \<comment> \<open>read past the end of a coefficient array\<close>

type_synonym 'a Ring_Buffer_Float_t = "'a list"

text \<open>Modelled from the spec: \<^verbatim>\<open>rb_initialize_F\<close> (not in \<^verbatim>\<open>Filter.c\<close>):
  "sets length to 0. No failure condition."\<close>

definition rb_initialize_F :: "'a Ring_Buffer_Float_t" where
  "rb_initialize_F = []"

text \<open>Modelled from the spec: \<^verbatim>\<open>rb_length_F\<close> (not in \<^verbatim>\<open>Filter.c\<close>):
  "current element count".\<close>

definition rb_length_F :: "'a Ring_Buffer_Float_t \<Rightarrow> nat" where
  "rb_length_F buf = length buf"

text \<open>Modelled from the spec: \<^verbatim>\<open>rb_push_back_F\<close> and \<^verbatim>\<open>rb_push_front_F\<close> (not in
  \<^verbatim>\<open>Filter.c\<close>): "insert at tail/head. Fails (capacity error) if length == capacity".
  The spec's buffers never hold more than \<open>cap\<close> elements; the test \<open>cap \<le> length buf\<close>
  is the spec's \<open>length == capacity\<close> on them.\<close>

definition rb_push_back_F ::
  "nat \<Rightarrow> 'a Ring_Buffer_Float_t \<Rightarrow> 'a \<Rightarrow> filter_error + 'a Ring_Buffer_Float_t" where
  "rb_push_back_F cap buf v = (if cap \<le> length buf then Inl Capacity_Error else Inr (buf @ [v]))"

definition rb_push_front_F ::
  "nat \<Rightarrow> 'a Ring_Buffer_Float_t \<Rightarrow> 'a \<Rightarrow> filter_error + 'a Ring_Buffer_Float_t" where
  "rb_push_front_F cap buf v = (if cap \<le> length buf then Inl Capacity_Error else Inr (v # buf))"

text \<open>Modelled from the spec: \<^verbatim>\<open>rb_pop_front_F\<close> and \<^verbatim>\<open>rb_pop_back_F\<close> (not in
  \<^verbatim>\<open>Filter.c\<close>): "remove and return the tail/head element. Fails (underflow error) if
  length == 0."\<close>

definition rb_pop_front_F ::
  "'a Ring_Buffer_Float_t \<Rightarrow> filter_error + ('a \<times> 'a Ring_Buffer_Float_t)" where
  "rb_pop_front_F buf = (case buf of [] \<Rightarrow> Inl Underflow_Error | x # xs \<Rightarrow> Inr (x, xs))"

definition rb_pop_back_F ::
  "'a Ring_Buffer_Float_t \<Rightarrow> filter_error + ('a \<times> 'a Ring_Buffer_Float_t)" where
  "rb_pop_back_F buf = (if buf = [] then Inl Underflow_Error else Inr (last buf, butlast buf))"

text \<open>Modelled from the spec: \<^verbatim>\<open>rb_get_F\<close> (not in \<^verbatim>\<open>Filter.c\<close>): "read element at
  logical position index (0 = oldest) without removing. Fails if index \<ge> length."
  The index is an \<open>int\<close> because \<^verbatim>\<open>Filter_Last_Output\<close> computes it as
  \<^verbatim>\<open>rb_length_F(..) - 1\<close>; an index below 0 names no stored element either.\<close>

definition rb_get_F :: "'a Ring_Buffer_Float_t \<Rightarrow> int \<Rightarrow> filter_error + 'a" where
  "rb_get_F buf index =
     (if index < 0 \<or> int (length buf) \<le> index then Inl Index_Error else Inr (buf ! nat index))"

section \<open>The filter\<close>

text \<open>\<^verbatim>\<open>Filter_Data_t\<close>: the four buffers that \<^verbatim>\<open>Filter.c\<close> reaches through
  \<^verbatim>\<open>p_filt\<close>.\<close>

record 'a Filter_Data_t =
  numerator :: "'a Ring_Buffer_Float_t"
  denominator :: "'a Ring_Buffer_Float_t"
  out_list :: "'a Ring_Buffer_Float_t"
  in_list :: "'a Ring_Buffer_Float_t"

text \<open>A coefficient array is a C pointer; reading past the end of the array it points
  to is undefined in C and an error here.\<close>

definition coeff_at :: "'a list \<Rightarrow> 8 word \<Rightarrow> filter_error + 'a" where
  "coeff_at coeffs i = (if unat i < length coeffs then Inr (coeffs ! unat i) else Inl Coeff_Out_Of_Range)"

text \<open>A \<^verbatim>\<open>uint8_t\<close> counter that is below some other \<^verbatim>\<open>uint8_t\<close> does not wrap
  when it is incremented.\<close>

lemma uint8_counter_Suc: "(i :: 8 word) < len \<Longrightarrow> unat (i + 1) = Suc (unat i)"
proof -
  assume "i < len"
  then have "unat i < unat len" by (simp add: word_less_nat_alt)
  moreover have "unat len < 2 ^ 8" using unsigned_less [of len] by simp
  ultimately show ?thesis by (simp add: unat_word_ariths)
qed

subsection \<open>\<^verbatim>\<open>Filter_Init\<close>\<close>

text \<open>One pass through the body of the \<^verbatim>\<open>for\<close> loop of \<^verbatim>\<open>Filter_Init\<close>.\<close>

definition Filter_Init_body ::
  "nat \<Rightarrow> 'a::zero list \<Rightarrow> 'a list \<Rightarrow> 8 word \<Rightarrow> 'a Filter_Data_t \<Rightarrow> filter_error + 'a Filter_Data_t" where
  "Filter_Init_body cap numerator_coeffs denominator_coeffs i p =
     (case coeff_at numerator_coeffs i of Inl e \<Rightarrow> Inl e | Inr b \<Rightarrow>
     (case rb_push_back_F cap (numerator p) b of Inl e \<Rightarrow> Inl e | Inr nm \<Rightarrow>
     (case coeff_at denominator_coeffs i of Inl e \<Rightarrow> Inl e | Inr a \<Rightarrow>
     (case rb_push_back_F cap (denominator p) a of Inl e \<Rightarrow> Inl e | Inr dn \<Rightarrow>
     (case rb_push_back_F cap (in_list p) 0 of Inl e \<Rightarrow> Inl e | Inr il \<Rightarrow>
     (case rb_push_back_F cap (out_list p) 0 of Inl e \<Rightarrow> Inl e | Inr ol \<Rightarrow>
        Inr (p\<lparr>numerator := nm, denominator := dn, in_list := il, out_list := ol\<rparr>)))))))"

text \<open>\<^verbatim>\<open>for ( uint8_t i = 0; i <= order; i++ )\<close>: the counter is an 8-bit word, and
  \<open>i + 1\<close> wraps from 255 to 0. A failed insertion ends the run.\<close>

function Filter_Init_loop ::
  "nat \<Rightarrow> 'a::zero list \<Rightarrow> 'a list \<Rightarrow> 8 word \<Rightarrow> 8 word \<Rightarrow> 'a Filter_Data_t
     \<Rightarrow> filter_error + 'a Filter_Data_t" where
  "Filter_Init_loop cap numerator_coeffs denominator_coeffs order i p =
     (if i \<le> order
      then (case Filter_Init_body cap numerator_coeffs denominator_coeffs i p of
              Inl e \<Rightarrow> Inl e
            | Inr p' \<Rightarrow> Filter_Init_loop cap numerator_coeffs denominator_coeffs order (i + 1) p')
      else Inr p)"
  by pat_completeness auto
termination
proof (relation "measure (\<lambda>(cap, nc, dc, order, i, p). cap - length (numerator p))", goal_cases)
  case 1
  show ?case by simp
next
  case (2 cap nc dc order i p p')
  from 2(2) have "length (numerator p) < cap" and "length (numerator p') = Suc (length (numerator p))"
    by (auto simp: Filter_Init_body_def rb_push_back_F_def split: sum.splits if_splits)
  then show ?case by (simp add: diff_less_mono2)
qed

declare Filter_Init_loop.simps [simp del]

definition Filter_Init ::
  "nat \<Rightarrow> 'a::zero Filter_Data_t \<Rightarrow> 'a list \<Rightarrow> 'a list \<Rightarrow> 8 word \<Rightarrow> filter_error + 'a Filter_Data_t" where
  "Filter_Init cap p_filt numerator_coeffs denominator_coeffs order =
     Filter_Init_loop cap numerator_coeffs denominator_coeffs order 0
       (p_filt\<lparr>numerator := rb_initialize_F, denominator := rb_initialize_F,
               out_list := rb_initialize_F, in_list := rb_initialize_F\<rparr>)"

subsection \<open>\<^verbatim>\<open>Filter_ShiftBy\<close>\<close>

text \<open>Of the local \<^verbatim>\<open>temp_shift\<close> only the two history buffers are ever initialised
  or used; they are the second and third component of the loop state.

  First loop: \<^verbatim>\<open>while ( rb_length_F( &p_filt->in_list ) != 0 )\<close>.\<close>

function Filter_ShiftBy_drain ::
  "nat \<Rightarrow> 'a Filter_Data_t \<times> 'a Ring_Buffer_Float_t \<times> 'a Ring_Buffer_Float_t
     \<Rightarrow> filter_error + ('a Filter_Data_t \<times> 'a Ring_Buffer_Float_t \<times> 'a Ring_Buffer_Float_t)" where
  "Filter_ShiftBy_drain cap (p, temp_in, temp_out) =
     (if rb_length_F (in_list p) \<noteq> 0
      then (case rb_pop_front_F (in_list p) of Inl e \<Rightarrow> Inl e | Inr (x, il) \<Rightarrow>
           (case rb_push_back_F cap temp_in x of Inl e \<Rightarrow> Inl e | Inr temp_in' \<Rightarrow>
           (case rb_pop_front_F (out_list p) of Inl e \<Rightarrow> Inl e | Inr (y, ol) \<Rightarrow>
           (case rb_push_back_F cap temp_out y of Inl e \<Rightarrow> Inl e | Inr temp_out' \<Rightarrow>
              Filter_ShiftBy_drain cap (p\<lparr>in_list := il, out_list := ol\<rparr>, temp_in', temp_out')))))
      else Inr (p, temp_in, temp_out))"
  by pat_completeness auto
termination
proof (relation "measure (\<lambda>(cap, p, temp_in, temp_out). length (in_list p))", goal_cases)
  case 1
  show ?case by simp
next
  case (2 cap p temp_in temp_out x21 x il)
  then show ?case
    by (auto simp: rb_pop_front_F_def rb_length_F_def split: list.splits)
qed

declare Filter_ShiftBy_drain.simps [simp del]

text \<open>Second loop: \<^verbatim>\<open>while ( rb_length_F( &temp_shift.in_list ) != 0 )\<close>.\<close>

function Filter_ShiftBy_refill ::
  "nat \<Rightarrow> 'a::plus \<Rightarrow> 'a Filter_Data_t \<times> 'a Ring_Buffer_Float_t \<times> 'a Ring_Buffer_Float_t
     \<Rightarrow> filter_error + ('a Filter_Data_t \<times> 'a Ring_Buffer_Float_t \<times> 'a Ring_Buffer_Float_t)" where
  "Filter_ShiftBy_refill cap shift_amount (p, temp_in, temp_out) =
     (if rb_length_F temp_in \<noteq> 0
      then (case rb_pop_front_F temp_in of Inl e \<Rightarrow> Inl e | Inr (x, temp_in') \<Rightarrow>
           (case rb_push_back_F cap (in_list p) (x + shift_amount) of Inl e \<Rightarrow> Inl e | Inr il \<Rightarrow>
           (case rb_pop_front_F temp_out of Inl e \<Rightarrow> Inl e | Inr (y, temp_out') \<Rightarrow>
           (case rb_push_back_F cap (out_list p) (y + shift_amount) of Inl e \<Rightarrow> Inl e | Inr ol \<Rightarrow>
              Filter_ShiftBy_refill cap shift_amount
                (p\<lparr>in_list := il, out_list := ol\<rparr>, temp_in', temp_out')))))
      else Inr (p, temp_in, temp_out))"
  by pat_completeness auto
termination
proof (relation "measure (\<lambda>(cap, s, p, temp_in, temp_out). length temp_in)", goal_cases)
  case 1
  show ?case by simp
next
  case (2 cap s p temp_in temp_out x21 x temp_in')
  then show ?case
    by (auto simp: rb_pop_front_F_def rb_length_F_def split: list.splits)
qed

declare Filter_ShiftBy_refill.simps [simp del]

definition Filter_ShiftBy ::
  "nat \<Rightarrow> 'a::plus Filter_Data_t \<Rightarrow> 'a \<Rightarrow> filter_error + 'a Filter_Data_t" where
  "Filter_ShiftBy cap p_filt shift_amount =
     (case Filter_ShiftBy_drain cap (p_filt, rb_initialize_F, rb_initialize_F) of
        Inl e \<Rightarrow> Inl e
      | Inr s \<Rightarrow>
          (case Filter_ShiftBy_refill cap shift_amount s of
             Inl e \<Rightarrow> Inl e
           | Inr (p, temp_in, temp_out) \<Rightarrow> Inr p))"

subsection \<open>\<^verbatim>\<open>Filter_SetTo\<close>\<close>

definition Filter_SetTo_body ::
  "nat \<Rightarrow> 'a \<Rightarrow> 'a Filter_Data_t \<Rightarrow> filter_error + 'a Filter_Data_t" where
  "Filter_SetTo_body cap amount p =
     (case rb_pop_front_F (in_list p) of Inl e \<Rightarrow> Inl e | Inr (x, il) \<Rightarrow>
     (case rb_push_back_F cap il amount of Inl e \<Rightarrow> Inl e | Inr il' \<Rightarrow>
     (case rb_pop_front_F (out_list p) of Inl e \<Rightarrow> Inl e | Inr (y, ol) \<Rightarrow>
     (case rb_push_back_F cap ol amount of Inl e \<Rightarrow> Inl e | Inr ol' \<Rightarrow>
        Inr (p\<lparr>in_list := il', out_list := ol'\<rparr>)))))"

text \<open>\<^verbatim>\<open>for (uint8_t i = 0; i < length; i++)\<close> with \<^verbatim>\<open>uint8_t length\<close>.\<close>

function Filter_SetTo_loop ::
  "nat \<Rightarrow> 'a \<Rightarrow> 8 word \<Rightarrow> 8 word \<Rightarrow> 'a Filter_Data_t \<Rightarrow> filter_error + 'a Filter_Data_t" where
  "Filter_SetTo_loop cap amount len i p =
     (if i < len
      then (case Filter_SetTo_body cap amount p of
              Inl e \<Rightarrow> Inl e
            | Inr p' \<Rightarrow> Filter_SetTo_loop cap amount len (i + 1) p')
      else Inr p)"
  by pat_completeness auto
termination
proof (relation "measure (\<lambda>(cap, amount, len, i, p). unat len - unat i)", goal_cases)
  case 1
  show ?case by simp
next
  case (2 cap amount len i p p')
  from 2(1) have "unat (i + 1) = Suc (unat i)"
    by (rule uint8_counter_Suc)
  with 2(1) show ?case
    by (simp add: word_less_nat_alt)
qed

declare Filter_SetTo_loop.simps [simp del]

definition Filter_SetTo :: "nat \<Rightarrow> 'a Filter_Data_t \<Rightarrow> 'a \<Rightarrow> filter_error + 'a Filter_Data_t" where
  "Filter_SetTo cap p_filt amount =
     (let len = (of_nat (rb_length_F (in_list p_filt)) :: 8 word)
      in Filter_SetTo_loop cap amount len 0 p_filt)"

subsection \<open>\<^verbatim>\<open>Filter_Value\<close>\<close>

text \<open>The body of the \<^verbatim>\<open>for\<close> loop, on the filter and the two running sums
  \<^verbatim>\<open>in_sum\<close> and \<^verbatim>\<open>out_sum\<close>.\<close>

definition Filter_Value_body ::
  "nat \<Rightarrow> 'a::{plus,times} Filter_Data_t \<times> 'a \<times> 'a
     \<Rightarrow> filter_error + ('a Filter_Data_t \<times> 'a \<times> 'a)" where
  "Filter_Value_body cap s =
     (case s of (p, in_sum, out_sum) \<Rightarrow>
     (case rb_pop_front_F (numerator p) of Inl e \<Rightarrow> Inl e | Inr (num_b, nm) \<Rightarrow>
     (case rb_pop_front_F (denominator p) of Inl e \<Rightarrow> Inl e | Inr (den_a, dn) \<Rightarrow>
     (case rb_pop_back_F (in_list p) of Inl e \<Rightarrow> Inl e | Inr (in_x, il) \<Rightarrow>
     (case rb_pop_back_F (out_list p) of Inl e \<Rightarrow> Inl e | Inr (out_y, ol) \<Rightarrow>
     (case rb_push_back_F cap nm num_b of Inl e \<Rightarrow> Inl e | Inr nm' \<Rightarrow>
     (case rb_push_back_F cap dn den_a of Inl e \<Rightarrow> Inl e | Inr dn' \<Rightarrow>
     (case rb_push_front_F cap il in_x of Inl e \<Rightarrow> Inl e | Inr il' \<Rightarrow>
     (case rb_push_front_F cap ol out_y of Inl e \<Rightarrow> Inl e | Inr ol' \<Rightarrow>
        Inr (p\<lparr>numerator := nm', denominator := dn', in_list := il', out_list := ol'\<rparr>,
             in_sum + num_b * in_x, out_sum + den_a * out_y))))))))))"

text \<open>\<^verbatim>\<open>for (uint8_t i = 0; i < length - 1; i++)\<close> with \<^verbatim>\<open>uint8_t length\<close>: C
  promotes both sides of the comparison to \<^verbatim>\<open>int\<close>, so \<^verbatim>\<open>length - 1\<close> is \<open>-1\<close>
  when \<^verbatim>\<open>length\<close> is 0.\<close>

function Filter_Value_loop ::
  "nat \<Rightarrow> 8 word \<Rightarrow> 8 word \<Rightarrow> 'a::{plus,times} Filter_Data_t \<times> 'a \<times> 'a
     \<Rightarrow> filter_error + ('a Filter_Data_t \<times> 'a \<times> 'a)" where
  "Filter_Value_loop cap len i s =
     (if uint i < uint len - 1
      then (case Filter_Value_body cap s of
              Inl e \<Rightarrow> Inl e
            | Inr s' \<Rightarrow> Filter_Value_loop cap len (i + 1) s')
      else Inr s)"
  by pat_completeness auto
termination
proof (relation "measure (\<lambda>(cap, len, i, s). unat len - unat i)", goal_cases)
  case 1
  show ?case by simp
next
  case (2 cap len i s s')
  from 2(1) have lt: "i < len"
    by (simp add: word_less_def)
  then have "unat (i + 1) = Suc (unat i)"
    by (rule uint8_counter_Suc)
  with lt show ?case
    by (simp add: word_less_nat_alt)
qed

declare Filter_Value_loop.simps [simp del]

text \<open>The call to \<^verbatim>\<open>printf\<close> writes the output value to the console and changes
  nothing in the filter; it is left out. The result is the returned \<^verbatim>\<open>out_val\<close>
  together with the filter as the call leaves it.\<close>

definition Filter_Value ::
  "nat \<Rightarrow> 'a::{zero,plus,minus,times,inverse} Filter_Data_t \<Rightarrow> 'a
     \<Rightarrow> filter_error + ('a \<times> 'a Filter_Data_t)" where
  "Filter_Value cap p_filt val =
     (let len = (of_nat (rb_length_F (numerator p_filt)) :: 8 word);
          in_sum = 0;
          out_sum = 0
      in
     (case rb_pop_front_F (in_list p_filt) of Inl e \<Rightarrow> Inl e | Inr (x_oldest, il) \<Rightarrow>
     (case rb_pop_front_F (numerator p_filt) of Inl e \<Rightarrow> Inl e | Inr (b0, nm) \<Rightarrow>
     (case rb_pop_front_F (denominator p_filt) of Inl e \<Rightarrow> Inl e | Inr (a0, dn) \<Rightarrow>
     (let in_n = val in
     (case rb_pop_front_F (out_list p_filt) of Inl e \<Rightarrow> Inl e | Inr (out_n, ol) \<Rightarrow>
     (case rb_push_back_F cap nm b0 of Inl e \<Rightarrow> Inl e | Inr nm' \<Rightarrow>
     (case rb_push_back_F cap dn a0 of Inl e \<Rightarrow> Inl e | Inr dn' \<Rightarrow>
     (let in_sum = in_sum + b0 * in_n in
     (case Filter_Value_loop cap len 0
             (p_filt\<lparr>numerator := nm', denominator := dn', in_list := il, out_list := ol\<rparr>,
              in_sum, out_sum) of
        Inl e \<Rightarrow> Inl e
      | Inr (p, in_sum, out_sum) \<Rightarrow>
     (let out_val = (in_sum - out_sum) / a0 in
     (case rb_push_back_F cap (in_list p) in_n of Inl e \<Rightarrow> Inl e | Inr il' \<Rightarrow>
     (case rb_push_back_F cap (out_list p) out_val of Inl e \<Rightarrow> Inl e | Inr ol' \<Rightarrow>
        Inr (out_val, p\<lparr>in_list := il', out_list := ol'\<rparr>))))))))))))))"

subsection \<open>\<^verbatim>\<open>Filter_Last_Output\<close>\<close>

definition Filter_Last_Output :: "'a Filter_Data_t \<Rightarrow> filter_error + 'a" where
  "Filter_Last_Output p_filt =
     rb_get_F (out_list p_filt) (int (rb_length_F (out_list p_filt)) - 1)"

text \<open>\<^verbatim>\<open>print_rb\<close>, the last function of \<^verbatim>\<open>Filter.c\<close>, prints a buffer; no
  other function calls it, and it is not part of the model.\<close>

section \<open>Sequences of calls\<close>

text \<open>A filter is in use ("Ready") once \<^verbatim>\<open>Filter_Init\<close> has returned; from then on
  the caller issues \<^verbatim>\<open>Filter_Value\<close>, \<^verbatim>\<open>Filter_ShiftBy\<close> and \<^verbatim>\<open>Filter_SetTo\<close> in
  any order. \<open>run_calls\<close> performs such a sequence, stopping at the first error.\<close>

datatype 'a filter_call = Call_Value 'a | Call_ShiftBy 'a | Call_SetTo 'a

fun run_call ::
  "nat \<Rightarrow> 'a::{zero,plus,minus,times,inverse} Filter_Data_t \<Rightarrow> 'a filter_call
     \<Rightarrow> filter_error + 'a Filter_Data_t" where
  "run_call cap p (Call_Value v) =
     (case Filter_Value cap p v of Inl e \<Rightarrow> Inl e | Inr (y, p') \<Rightarrow> Inr p')"
| "run_call cap p (Call_ShiftBy s) = Filter_ShiftBy cap p s"
| "run_call cap p (Call_SetTo c) = Filter_SetTo cap p c"

fun run_calls ::
  "nat \<Rightarrow> 'a::{zero,plus,minus,times,inverse} Filter_Data_t \<Rightarrow> 'a filter_call list
     \<Rightarrow> filter_error + 'a Filter_Data_t" where
  "run_calls cap p [] = Inr p"
| "run_calls cap p (c # cs) =
     (case run_call cap p c of Inl e \<Rightarrow> Inl e | Inr p' \<Rightarrow> run_calls cap p' cs)"

text \<open>The states the specification calls "Ready", for a filter of order \<open>N\<close> with
  coefficients \<open>b\<close> and \<open>a\<close>: the coefficient buffers hold \<open>b\<close> and \<open>a\<close>, all four
  buffers hold \<open>N + 1\<close> elements, the buffers have room for them, and \<open>N + 1\<close> fits
  the \<^verbatim>\<open>uint8_t\<close> in which \<^verbatim>\<open>Filter_Value\<close> and \<^verbatim>\<open>Filter_SetTo\<close> keep the length.
  Every state reached from a returned \<^verbatim>\<open>Filter_Init\<close> is of this kind
  (\<open>reached_Ready\<close> below).\<close>

definition Ready :: "nat \<Rightarrow> nat \<Rightarrow> 'a list \<Rightarrow> 'a list \<Rightarrow> 'a Filter_Data_t \<Rightarrow> bool" where
  "Ready cap N b a f \<longleftrightarrow>
     N < 255 \<and> N < cap \<and> numerator f = b \<and> denominator f = a \<and>
     length b = Suc N \<and> length a = Suc N \<and>
     length (in_list f) = Suc N \<and> length (out_list f) = Suc N"

section \<open>The difference equation\<close>

text \<open>The value the specification prescribes for one update,
  \<^verbatim>\<open>( b0*x[n] + Sum_{i=1..N} b_i*x[n-i] - Sum_{i=1..N} a_i*y[n-i] ) / a0\<close>,
  for the coefficient sequences \<open>b\<close> and \<open>a\<close>, the stored histories \<open>x_hist\<close> and
  \<open>y_hist\<close> (oldest first, \<open>N + 1\<close> samples each, so that the \<open>i\<close>-th most recent
  sample is at index \<open>N + 1 - i\<close>) and the new input \<open>v\<close>. Each sum is
  accumulated from \<open>i = 1\<close> upwards; the sum of the inputs starts from \<open>0 + b0*v\<close>
  and the sum of the outputs from \<open>0\<close>. In exact arithmetic the order of
  accumulation does not matter (\<open>difference_equation_field\<close> below).\<close>

definition difference_equation :: "'a::{zero,plus,minus,times,inverse} list \<Rightarrow> 'a list \<Rightarrow> 'a list \<Rightarrow> 'a list \<Rightarrow> 'a \<Rightarrow> 'a" where
  "difference_equation b a x_hist y_hist v =
     (let N = length b - 1 in
        (foldl (+) (0 + b ! 0 * v) (map (\<lambda>i. b ! i * x_hist ! (Suc N - i)) [1..<Suc N])
          - foldl (+) 0 (map (\<lambda>i. a ! i * y_hist ! (Suc N - i)) [1..<Suc N])) / a ! 0)"

section \<open>Facts about the buffer operations\<close>

lemma rb_pop_front_F_Cons: "rb_pop_front_F (x # xs) = Inr (x, xs)"
  by (simp add: rb_pop_front_F_def)

lemma rb_pop_back_F_snoc: "rb_pop_back_F (xs @ [x]) = Inr (x, xs)"
  by (simp add: rb_pop_back_F_def)

lemma rb_push_back_F_room: "length buf < cap \<Longrightarrow> rb_push_back_F cap buf v = Inr (buf @ [v])"
  by (simp add: rb_push_back_F_def)

lemma rb_push_front_F_room: "length buf < cap \<Longrightarrow> rb_push_front_F cap buf v = Inr (v # buf)"
  by (simp add: rb_push_front_F_def)

section \<open>\<^verbatim>\<open>Filter_Init\<close>: what it builds and when it returns\<close>

lemma word8_le_255: "(i :: 8 word) \<le> 255"
proof -
  have "unat i < 2 ^ 8" using unsigned_less [of i] by simp
  then show ?thesis by (simp add: word_le_nat_alt)
qed

lemma Filter_Init_loop_255:
  "Filter_Init_loop cap nc dc 255 i p \<noteq> Inr f"
proof (induction cap nc dc "255 :: 8 word" i p rule: Filter_Init_loop.induct)
  case (1 cap nc dc i p)
  show ?case
  proof (cases "Filter_Init_body cap nc dc i p")
    case (Inl e)
    then show ?thesis
      by (subst Filter_Init_loop.simps) (simp add: word8_le_255)
  next
    case (Inr p')
    with 1 [OF word8_le_255 Inr] show ?thesis
      by (subst Filter_Init_loop.simps) (simp add: word8_le_255)
  qed
qed

lemma Filter_Init_body_Inr:
  "Filter_Init_body cap nc dc i p = Inr p' \<longleftrightarrow>
     unat i < length nc \<and> unat i < length dc \<and>
     length (numerator p) < cap \<and> length (denominator p) < cap \<and>
     length (in_list p) < cap \<and> length (out_list p) < cap \<and>
     p' = p\<lparr>numerator := numerator p @ [nc ! unat i], denominator := denominator p @ [dc ! unat i],
            in_list := in_list p @ [0], out_list := out_list p @ [0]\<rparr>"
  by (auto simp: Filter_Init_body_def coeff_at_def rb_push_back_F_def split: sum.splits)

lemma Filter_Init_loop_total:
  assumes "unat i + k = Suc (unat order)" and "unat order < 255"
    and "unat order < length nc" and "unat order < length dc"
    and "length (numerator p) + k \<le> cap" and "length (denominator p) + k \<le> cap"
    and "length (in_list p) + k \<le> cap" and "length (out_list p) + k \<le> cap"
  shows "Filter_Init_loop cap nc dc order i p =
           Inr (p\<lparr>numerator := numerator p @ take k (drop (unat i) nc),
                  denominator := denominator p @ take k (drop (unat i) dc),
                  in_list := in_list p @ replicate k 0,
                  out_list := out_list p @ replicate k 0\<rparr>)"
  using assms
proof (induction k arbitrary: i p)
  case 0
  then have "\<not> i \<le> order" by (simp add: word_le_nat_alt)
  then show ?case
    by (subst Filter_Init_loop.simps) simp
next
  case (Suc k)
  from Suc.prems(1) have le: "i \<le> order" by (simp add: word_le_nat_alt)
  from Suc.prems(1,2) have "unat i < unat (255 :: 8 word)" by simp
  then have "i < 255" by (simp add: word_less_nat_alt)
  then have i1: "unat (i + 1) = Suc (unat i)" by (rule uint8_counter_Suc)
  from Suc.prems(1,3,4) have inb: "unat i < length nc" "unat i < length dc" by simp_all
  let ?p' = "p\<lparr>numerator := numerator p @ [nc ! unat i], denominator := denominator p @ [dc ! unat i],
            in_list := in_list p @ [0], out_list := out_list p @ [0]\<rparr>"
  from Suc.prems inb have body: "Filter_Init_body cap nc dc i p = Inr ?p'"
    by (simp add: Filter_Init_body_Inr)
  have rest: "Filter_Init_loop cap nc dc order (i + 1) ?p' =
           Inr (?p'\<lparr>numerator := numerator ?p' @ take k (drop (unat (i + 1)) nc),
                  denominator := denominator ?p' @ take k (drop (unat (i + 1)) dc),
                  in_list := in_list ?p' @ replicate k 0,
                  out_list := out_list ?p' @ replicate k 0\<rparr>)"
    using Suc.prems i1 by (intro Suc.IH) simp_all
  have tk: "take (Suc k) (drop (unat i) xs) = xs ! unat i # take k (drop (Suc (unat i)) xs)"
    if "unat i < length xs" for xs :: "'a list"
    using that by (simp add: Cons_nth_drop_Suc [symmetric])
  show ?case
    by (subst Filter_Init_loop.simps) (simp add: le body rest i1 tk inb replicate_app_Cons_same)
qed

lemma Filter_Init_loop_needs:
  assumes "Filter_Init_loop cap nc dc order i p = Inr f" and "i \<le> order"
  shows "unat order < length nc \<and> unat order < length dc \<and>
         length (numerator p) + (unat order - unat i) < cap"
  using assms
proof (induction cap nc dc order i p rule: Filter_Init_loop.induct)
  case (1 cap nc dc order i p)
  from "1.prems" obtain p' where body: "Filter_Init_body cap nc dc i p = Inr p'"
    and rest: "Filter_Init_loop cap nc dc order (i + 1) p' = Inr f"
    by (subst (asm) Filter_Init_loop.simps) (auto split: sum.splits)
  from body have b: "unat i < length nc" "unat i < length dc" "length (numerator p) < cap"
    "length (numerator p') = Suc (length (numerator p))"
    by (auto simp: Filter_Init_body_Inr)
  show ?case
  proof (cases "i = order")
    case True
    with b show ?thesis by simp
  next
    case False
    with "1.prems"(2) have lt: "i < order" by simp
    then have i1: "unat (i + 1) = Suc (unat i)" by (rule uint8_counter_Suc)
    from lt have "unat i < unat order" by (simp add: word_less_nat_alt)
    with i1 have le': "i + 1 \<le> order" by (simp add: word_le_nat_alt)
    from "1.IH" [OF "1.prems"(2) body rest le']
    have ih: "unat order < length nc" "unat order < length dc"
      "length (numerator p') + (unat order - unat (i + 1)) < cap"
      by simp_all
    from ih(3) b(4) i1 \<open>unat i < unat order\<close>
    have "length (numerator p) + (unat order - unat i) < cap" by arith
    with ih(1,2) show ?thesis by simp
  qed
qed

lemma Filter_Init_Inr_iff:
  "Filter_Init cap p nc dc order = Inr f \<longleftrightarrow>
     unat order < 255 \<and> unat order < cap \<and> unat order < length nc \<and> unat order < length dc \<and>
     f = p\<lparr>numerator := take (Suc (unat order)) nc, denominator := take (Suc (unat order)) dc,
            out_list := replicate (Suc (unat order)) 0, in_list := replicate (Suc (unat order)) 0\<rparr>"
  (is "?L \<longleftrightarrow> ?R")
proof
  let ?e = "p\<lparr>numerator := [], denominator := [], out_list := [], in_list := []\<rparr>"
  have total: "Filter_Init_loop cap nc dc order 0 ?e =
      Inr (p\<lparr>numerator := take (Suc (unat order)) nc, denominator := take (Suc (unat order)) dc,
            out_list := replicate (Suc (unat order)) 0, in_list := replicate (Suc (unat order)) 0\<rparr>)"
    if "unat order < 255" "unat order < cap" "unat order < length nc" "unat order < length dc"
    using that by (subst Filter_Init_loop_total [where k = "Suc (unat order)"]) simp_all
  {
    assume L: ?L
    then have loop: "Filter_Init_loop cap nc dc order 0 ?e = Inr f"
      by (simp add: Filter_Init_def rb_initialize_F_def)
    then have "order \<noteq> 255"
      using Filter_Init_loop_255 [of cap nc dc 0 ?e f] by auto
    then have "unat order \<noteq> unat (255 :: 8 word)"
      by (simp only: word_unat_eq_iff [symmetric] not_False_eq_True)
    moreover have "unat order < 2 ^ 8" using unsigned_less [of order] by simp
    ultimately have o: "unat order < 255" by simp
    from Filter_Init_loop_needs [OF loop]
    have n: "unat order < length nc" "unat order < length dc" "unat order < cap"
      by simp_all
    from total [OF o n(3) n(1) n(2)] loop o n show ?R by simp
  }
  {
    assume R: ?R
    with total show ?L
      by (simp add: Filter_Init_def rb_initialize_F_def)
  }
qed

section \<open>\<^verbatim>\<open>Filter_Value\<close>: the rotation\<close>

lemma uint8_counter_uint: "(i :: 8 word) < len \<Longrightarrow> uint (i + 1) = uint i + 1"
proof -
  assume "i < len"
  then have "unat (i + 1) = Suc (unat i)" by (rule uint8_counter_Suc)
  then have "int (unat (i + 1)) = int (unat i) + 1" by simp
  then show ?thesis by (simp only: uint_nat)
qed

lemma Filter_Value_loop_rotates:
  fixes p :: "'a::{plus,times} Filter_Data_t"
  assumes "length u = k" and "length u2 = k" and "length t = k" and "length t2 = k"
    and "uint i + int k = uint len - 1"
    and "length (u @ w) \<le> cap" and "length (u2 @ w2) \<le> cap"
    and "length (z @ t) \<le> cap" and "length (z2 @ t2) \<le> cap"
  shows "Filter_Value_loop cap len i
           (p\<lparr>numerator := u @ w, denominator := u2 @ w2, in_list := z @ t, out_list := z2 @ t2\<rparr>,
            in_sum, out_sum) =
         Inr (p\<lparr>numerator := w @ u, denominator := w2 @ u2, in_list := t @ z, out_list := t2 @ z2\<rparr>,
              foldl (+) in_sum (map2 (*) u (rev t)), foldl (+) out_sum (map2 (*) u2 (rev t2)))"
  using assms
proof (induction k arbitrary: i u u2 t t2 w w2 z z2 in_sum out_sum)
  case 0
  then show ?case
    by (subst Filter_Value_loop.simps) simp
next
  case (Suc k)
  from Suc.prems(1) obtain b u' where u: "u = b # u'" "length u' = k"
    by (auto simp: length_Suc_conv)
  from Suc.prems(2) obtain a u2' where u2: "u2 = a # u2'" "length u2' = k"
    by (auto simp: length_Suc_conv)
  from Suc.prems(3) obtain x t' where t: "t = t' @ [x]" "length t' = k"
    by (auto simp: length_Suc_conv_rev)
  from Suc.prems(4) obtain y t2' where t2: "t2 = t2' @ [y]" "length t2' = k"
    by (auto simp: length_Suc_conv_rev)
  from Suc.prems(5) have cond: "uint i < uint len - 1" by simp
  then have "i < len" by (simp add: word_less_def)
  then have i1: "uint (i + 1) = uint i + 1" by (rule uint8_counter_uint)
  have body: "Filter_Value_body cap
           (p\<lparr>numerator := u @ w, denominator := u2 @ w2, in_list := z @ t, out_list := z2 @ t2\<rparr>,
            in_sum, out_sum) =
         Inr (p\<lparr>numerator := u' @ (w @ [b]), denominator := u2' @ (w2 @ [a]),
                in_list := (x # z) @ t', out_list := (y # z2) @ t2'\<rparr>,
              in_sum + b * x, out_sum + a * y)"
    using Suc.prems(6-9)
    by (simp add: Filter_Value_body_def u u2 t t2 rb_pop_front_F_Cons rb_push_back_F_room
        rb_push_front_F_room rb_pop_back_F_snoc [of "z @ t'" x, simplified]
        rb_pop_back_F_snoc [of "z2 @ t2'" y, simplified])
  have rest: "Filter_Value_loop cap len (i + 1)
           (p\<lparr>numerator := u' @ (w @ [b]), denominator := u2' @ (w2 @ [a]),
                in_list := (x # z) @ t', out_list := (y # z2) @ t2'\<rparr>,
            in_sum + b * x, out_sum + a * y) =
         Inr (p\<lparr>numerator := (w @ [b]) @ u', denominator := (w2 @ [a]) @ u2',
                in_list := t' @ (x # z), out_list := t2' @ (y # z2)\<rparr>,
              foldl (+) (in_sum + b * x) (map2 (*) u' (rev t')),
              foldl (+) (out_sum + a * y) (map2 (*) u2' (rev t2')))"
    using Suc.prems(5-9) u t u2 t2 i1 by (intro Suc.IH) simp_all
  show ?case
    apply (subst Filter_Value_loop.simps)
    apply (simp only: cond if_True body sum.case rest)
    apply (simp add: u u2 t t2)
    done
qed

lemma uint8_of_nat: "n < 256 \<Longrightarrow> uint (of_nat n :: 8 word) = int n"
  by (simp add: uint_nat unat_of_nat)

lemma Filter_Value_Ready:
  fixes f :: "'a::{zero,plus,minus,times,inverse} Filter_Data_t"
  assumes "Ready cap N b a f"
  shows "Filter_Value cap f v =
           Inr ((foldl (+) (0 + hd b * v) (map2 (*) (tl b) (rev (tl (in_list f))))
                  - foldl (+) 0 (map2 (*) (tl a) (rev (tl (out_list f))))) / hd a,
                f\<lparr>in_list := tl (in_list f) @ [v],
                   out_list := tl (out_list f) @
                     [(foldl (+) (0 + hd b * v) (map2 (*) (tl b) (rev (tl (in_list f))))
                        - foldl (+) 0 (map2 (*) (tl a) (rev (tl (out_list f))))) / hd a]\<rparr>)"
proof -
  from assms obtain b0 bs where b: "numerator f = b0 # bs" "b = b0 # bs" "length bs = N"
    by (auto simp: Ready_def length_Suc_conv)
  from assms obtain a0 as where a: "denominator f = a0 # as" "a = a0 # as" "length as = N"
    by (auto simp: Ready_def length_Suc_conv)
  from assms obtain x0 xs where x: "in_list f = x0 # xs" "length xs = N"
    by (auto simp: Ready_def length_Suc_conv)
  from assms obtain y0 ys where y: "out_list f = y0 # ys" "length ys = N"
    by (auto simp: Ready_def length_Suc_conv)
  from assms have N: "N < 255" "N < cap" by (auto simp: Ready_def)
  have len: "uint (of_nat (Suc N) :: 8 word) = int (Suc N)"
    using N by (intro uint8_of_nat) simp
  have loop: "Filter_Value_loop cap (of_nat (Suc N)) 0
           (f\<lparr>numerator := bs @ [b0], denominator := as @ [a0], in_list := [] @ xs, out_list := [] @ ys\<rparr>,
            in_sum, out_sum) =
         Inr (f\<lparr>numerator := [b0] @ bs, denominator := [a0] @ as, in_list := xs @ [], out_list := ys @ []\<rparr>,
              foldl (+) in_sum (map2 (*) bs (rev xs)), foldl (+) out_sum (map2 (*) as (rev ys)))"
    for in_sum out_sum :: 'a
    using b a x y N len by (intro Filter_Value_loop_rotates [where k = N]) simp_all
  show ?thesis
    using N loop
    by (simp add: Filter_Value_def Let_def rb_length_F_def b a x y rb_pop_front_F_Cons
        rb_push_back_F_room del: of_nat_Suc)
qed

section \<open>\<^verbatim>\<open>Filter_ShiftBy\<close>, \<^verbatim>\<open>Filter_SetTo\<close> and \<^verbatim>\<open>Filter_Last_Output\<close>\<close>

lemma Filter_ShiftBy_drain_moves:
  assumes "length xs = length ys"
    and "length temp_in + length xs \<le> cap" and "length temp_out + length ys \<le> cap"
  shows "Filter_ShiftBy_drain cap (p\<lparr>in_list := xs, out_list := ys\<rparr>, temp_in, temp_out) =
           Inr (p\<lparr>in_list := [], out_list := []\<rparr>, temp_in @ xs, temp_out @ ys)"
  using assms
proof (induction xs ys arbitrary: temp_in temp_out rule: list_induct2)
  case Nil
  show ?case
    by (subst Filter_ShiftBy_drain.simps) (simp add: rb_length_F_def)
next
  case (Cons x xs y ys)
  have "Filter_ShiftBy_drain cap (p\<lparr>in_list := xs, out_list := ys\<rparr>, temp_in @ [x], temp_out @ [y]) =
           Inr (p\<lparr>in_list := [], out_list := []\<rparr>, (temp_in @ [x]) @ xs, (temp_out @ [y]) @ ys)"
    using Cons.prems by (intro Cons.IH) simp_all
  with Cons.prems show ?case
    by (subst Filter_ShiftBy_drain.simps)
       (simp add: rb_length_F_def rb_pop_front_F_Cons rb_push_back_F_room)
qed

lemma Filter_ShiftBy_refill_moves:
  assumes "length temp_in = length temp_out"
    and "length xs + length temp_in \<le> cap" and "length ys + length temp_out \<le> cap"
  shows "Filter_ShiftBy_refill cap s (p\<lparr>in_list := xs, out_list := ys\<rparr>, temp_in, temp_out) =
           Inr (p\<lparr>in_list := xs @ map (\<lambda>x. x + s) temp_in,
                  out_list := ys @ map (\<lambda>y. y + s) temp_out\<rparr>, [], [])"
  using assms
proof (induction temp_in temp_out arbitrary: xs ys rule: list_induct2)
  case Nil
  show ?case
    by (subst Filter_ShiftBy_refill.simps) (simp add: rb_length_F_def)
next
  case (Cons x temp_in y temp_out)
  have "Filter_ShiftBy_refill cap s (p\<lparr>in_list := xs @ [x + s], out_list := ys @ [y + s]\<rparr>, temp_in, temp_out) =
           Inr (p\<lparr>in_list := (xs @ [x + s]) @ map (\<lambda>x. x + s) temp_in,
                  out_list := (ys @ [y + s]) @ map (\<lambda>y. y + s) temp_out\<rparr>, [], [])"
    using Cons.prems by (intro Cons.IH) simp_all
  with Cons.prems show ?case
    by (subst Filter_ShiftBy_refill.simps)
       (simp add: rb_length_F_def rb_pop_front_F_Cons rb_push_back_F_room)
qed

lemma Filter_ShiftBy_adds:
  assumes "length (in_list f) = length (out_list f)" and "length (in_list f) \<le> cap"
  shows "Filter_ShiftBy cap f s =
           Inr (f\<lparr>in_list := map (\<lambda>x. x + s) (in_list f),
                  out_list := map (\<lambda>y. y + s) (out_list f)\<rparr>)"
proof -
  have drain: "Filter_ShiftBy_drain cap (f\<lparr>in_list := in_list f, out_list := out_list f\<rparr>, [], []) =
      Inr (f\<lparr>in_list := [], out_list := []\<rparr>, [] @ in_list f, [] @ out_list f)"
    using assms by (intro Filter_ShiftBy_drain_moves) simp_all
  have refill: "Filter_ShiftBy_refill cap s (f\<lparr>in_list := [], out_list := []\<rparr>, in_list f, out_list f) =
      Inr (f\<lparr>in_list := [] @ map (\<lambda>x. x + s) (in_list f),
             out_list := [] @ map (\<lambda>y. y + s) (out_list f)\<rparr>, [], [])"
    using assms by (intro Filter_ShiftBy_refill_moves) simp_all
  from drain refill show ?thesis
    by (simp add: Filter_ShiftBy_def rb_initialize_F_def)
qed

lemma Filter_SetTo_loop_overwrites:
  assumes "unat i + k = unat len" and "k \<le> length xs" and "length xs = length ys"
    and "length xs \<le> cap"
  shows "Filter_SetTo_loop cap c len i (p\<lparr>in_list := xs, out_list := ys\<rparr>) =
           Inr (p\<lparr>in_list := drop k xs @ replicate k c, out_list := drop k ys @ replicate k c\<rparr>)"
  using assms
proof (induction k arbitrary: i xs ys)
  case 0
  then have "\<not> i < len" by (simp add: word_less_nat_alt)
  then show ?case
    by (subst Filter_SetTo_loop.simps) simp
next
  case (Suc k)
  from Suc.prems(1) have lt: "i < len" by (simp add: word_less_nat_alt)
  then have i1: "unat (i + 1) = Suc (unat i)" by (rule uint8_counter_Suc)
  from Suc.prems(2) obtain x xs' where xs: "xs = x # xs'" by (cases xs) auto
  from Suc.prems(2,3) obtain y ys' where ys: "ys = y # ys'" by (cases ys) auto
  have body: "Filter_SetTo_body cap c (p\<lparr>in_list := xs, out_list := ys\<rparr>) =
      Inr (p\<lparr>in_list := xs' @ [c], out_list := ys' @ [c]\<rparr>)"
    using Suc.prems(3,4)
    by (simp add: Filter_SetTo_body_def xs ys rb_pop_front_F_Cons rb_push_back_F_room)
  have rest: "Filter_SetTo_loop cap c len (i + 1) (p\<lparr>in_list := xs' @ [c], out_list := ys' @ [c]\<rparr>) =
           Inr (p\<lparr>in_list := drop k (xs' @ [c]) @ replicate k c,
                  out_list := drop k (ys' @ [c]) @ replicate k c\<rparr>)"
    using Suc.prems i1 xs ys by (intro Suc.IH) simp_all
  from Suc.prems(2,3) have "k \<le> length xs'" "k \<le> length ys'" by (simp_all add: xs ys)
  then show ?case
    apply (subst Filter_SetTo_loop.simps)
    apply (simp only: lt if_True body sum.case rest)
    apply (simp add: xs ys replicate_append_same)
    done
qed

lemma Filter_SetTo_overwrites:
  assumes "length (in_list f) = length (out_list f)" and "length (in_list f) \<le> cap"
    and "length (in_list f) < 256"
  shows "Filter_SetTo cap f c =
           Inr (f\<lparr>in_list := replicate (length (in_list f)) c,
                  out_list := replicate (length (out_list f)) c\<rparr>)"
proof -
  have "unat (of_nat (length (in_list f)) :: 8 word) = length (in_list f)"
    using assms(3) by (simp add: unat_of_nat)
  then have "Filter_SetTo_loop cap c (of_nat (length (in_list f))) 0
               (f\<lparr>in_list := in_list f, out_list := out_list f\<rparr>) =
           Inr (f\<lparr>in_list := drop (length (in_list f)) (in_list f) @ replicate (length (in_list f)) c,
                  out_list := drop (length (in_list f)) (out_list f) @ replicate (length (in_list f)) c\<rparr>)"
    using assms by (intro Filter_SetTo_loop_overwrites) simp_all
  with assms(1) show ?thesis
    by (simp add: Filter_SetTo_def rb_length_F_def)
qed

lemma Filter_Last_Output_last:
  "out_list f \<noteq> [] \<Longrightarrow> Filter_Last_Output f = Inr (last (out_list f))"
  by (simp add: Filter_Last_Output_def rb_get_F_def rb_length_F_def last_conv_nth nat_diff_distrib')

section \<open>Every reachable state is Ready\<close>

lemma Filter_Init_Ready:
  "Filter_Init cap p nc dc order = Inr f \<Longrightarrow>
     Ready cap (unat order) (take (Suc (unat order)) nc) (take (Suc (unat order)) dc) f"
  by (auto simp: Filter_Init_Inr_iff Ready_def)

lemma Filter_Value_Ready_preserved:
  fixes f :: "'a::{zero,plus,minus,times,inverse} Filter_Data_t"
  assumes "Ready cap N b a f"
  shows "\<exists>y f'. Filter_Value cap f v = Inr (y, f') \<and> Ready cap N b a f'"
  using assms by (auto simp: Filter_Value_Ready Ready_def)

lemma Filter_ShiftBy_Ready:
  assumes "Ready cap N b a f"
  shows "Filter_ShiftBy cap f s =
           Inr (f\<lparr>in_list := map (\<lambda>x. x + s) (in_list f),
                  out_list := map (\<lambda>y. y + s) (out_list f)\<rparr>)"
  using assms by (intro Filter_ShiftBy_adds) (simp_all add: Ready_def)

lemma Filter_SetTo_Ready:
  assumes "Ready cap N b a f"
  shows "Filter_SetTo cap f c =
           Inr (f\<lparr>in_list := replicate (Suc N) c, out_list := replicate (Suc N) c\<rparr>)"
proof -
  from assms have "length (in_list f) = Suc N" "length (out_list f) = Suc N" "Suc N \<le> cap" "Suc N < 256"
    by (simp_all add: Ready_def)
  then show ?thesis
    using Filter_SetTo_overwrites [of f cap c] by simp
qed

lemma run_call_Ready:
  fixes f :: "'a::{zero,plus,minus,times,inverse} Filter_Data_t"
  assumes "Ready cap N b a f"
  shows "\<exists>f'. run_call cap f c = Inr f' \<and> Ready cap N b a f'"
proof (cases c)
  case (Call_Value v)
  with Filter_Value_Ready_preserved [OF assms, of v] show ?thesis by auto
next
  case (Call_ShiftBy s)
  with assms show ?thesis by (simp add: Filter_ShiftBy_Ready) (simp add: Ready_def)
next
  case (Call_SetTo c)
  with assms show ?thesis by (simp add: Filter_SetTo_Ready) (simp add: Ready_def)
qed

lemma run_calls_Ready:
  fixes f :: "'a::{zero,plus,minus,times,inverse} Filter_Data_t"
  assumes "Ready cap N b a f"
  shows "\<exists>f'. run_calls cap f cs = Inr f' \<and> Ready cap N b a f'"
  using assms
proof (induction cs arbitrary: f)
  case Nil
  then show ?case by simp
next
  case (Cons c cs)
  from run_call_Ready [OF Cons.prems, of c] obtain f1
    where f1: "run_call cap f c = Inr f1" "Ready cap N b a f1" by blast
  from Cons.IH [OF f1(2)] f1(1) show ?case by simp
qed

lemma reached_Ready:
  fixes f :: "'a::{zero,plus,minus,times,inverse} Filter_Data_t"
  assumes "Filter_Init cap p nc dc order = Inr f0" and "run_calls cap f0 cs = Inr f"
  shows "Ready cap (unat order) (take (Suc (unat order)) nc) (take (Suc (unat order)) dc) f"
  using run_calls_Ready [OF Filter_Init_Ready [OF assms(1)], of cs] assms(2) by auto

section \<open>The closed form of one update\<close>

lemma map2_rev_tl_conv:
  fixes c h :: "'a::times list"
  assumes "length c = Suc N" and "length h = Suc N"
  shows "map2 (*) (tl c) (rev (tl h)) = map (\<lambda>i. c ! i * h ! (Suc N - i)) [1..<Suc N]"
proof (rule nth_equalityI)
  show "length (map2 (*) (tl c) (rev (tl h))) = length (map (\<lambda>i. c ! i * h ! (Suc N - i)) [1..<Suc N])"
    using assms by simp
next
  fix j
  assume "j < length (map2 (*) (tl c) (rev (tl h)))"
  with assms have j: "j < N" by simp
  with assms have "tl c ! j = c ! Suc j" "rev (tl h) ! j = h ! (N - j)"
    by (simp_all add: nth_tl rev_nth Suc_diff_Suc)
  with assms j show "map2 (*) (tl c) (rev (tl h)) ! j = map (\<lambda>i. c ! i * h ! (Suc N - i)) [1..<Suc N] ! j"
    by (simp del: upt_Suc)
qed

lemma difference_equation_conv:
  fixes b a x_hist y_hist :: "'a::{zero,plus,minus,times,inverse} list"
  assumes "length b = Suc N" and "length a = Suc N"
    and "length x_hist = Suc N" and "length y_hist = Suc N"
  shows "difference_equation b a x_hist y_hist v =
     (foldl (+) (0 + hd b * v) (map2 (*) (tl b) (rev (tl x_hist)))
       - foldl (+) 0 (map2 (*) (tl a) (rev (tl y_hist)))) / hd a"
proof -
  from assms have "b \<noteq> []" "a \<noteq> []" by auto
  then have "hd b = b ! 0" "hd a = a ! 0" by (simp_all add: hd_conv_nth)
  then show ?thesis
    using assms
    by (simp add: difference_equation_def Let_def map2_rev_tl_conv [where N = N] del: upt_Suc)
qed

lemma foldl_plus_sum_list: "foldl (+) acc xs = acc + sum_list (xs :: 'a::monoid_add list)"
  by (induction xs arbitrary: acc) (simp_all add: add.assoc)

lemma difference_equation_field:
  fixes b a x_hist y_hist :: "'a::field list"
  shows "difference_equation b a x_hist y_hist v =
     (b ! 0 * v + (\<Sum>i = 1..length b - 1. b ! i * x_hist ! (length b - i))
        - (\<Sum>i = 1..length b - 1. a ! i * y_hist ! (length b - i))) / a ! 0"
proof -
  have "sum_list (map f [1..<Suc N]) = (\<Sum>i = 1..N. f i)" for f :: "nat \<Rightarrow> 'a" and N
    by (simp add: interv_sum_list_conv_sum_set_nat atLeastLessThanSuc_atLeastAtMost del: upt_Suc)
  moreover have "(\<Sum>i = 1..length b - 1. c ! i * h ! (Suc (length b - 1) - i)) = (\<Sum>i = 1..length b - 1. c ! i * h ! (length b - i))" for c h :: "'a list"
    by (rule sum.cong) auto
  ultimately show ?thesis
    by (simp add: difference_equation_def Let_def foldl_plus_sum_list del: upt_Suc)
qed

section \<open>Sums of shifted samples\<close>

lemma sum_list_map2_shift:
  fixes c h :: "'a::comm_semiring_1 list"
  assumes "length c = length h"
  shows "sum_list (map2 (*) c (map (\<lambda>x. x + s) h)) = sum_list (map2 (*) c h) + s * sum_list c"
  using assms by (induction c h rule: list_induct2) (simp_all add: algebra_simps)

lemma sum_list_hd_tl:
  "xs \<noteq> [] \<Longrightarrow> sum_list xs = hd xs + sum_list (tl (xs :: 'a::monoid_add list))"
  by (cases xs) simp_all

text \<open>In exact arithmetic, and only there, the difference equation on histories
  shifted by \<open>s\<close> and the difference equation for the input \<open>x - s\<close> on the
  unshifted histories are related as follows. The sample arithmetic of \<^verbatim>\<open>Filter.c\<close>
  rounds and is not a field, so this is a fact about the equation, not about what the
  code returns.\<close>

lemma shift_then_update_exact:
  fixes b a x_hist y_hist :: "'a::field list"
  assumes "length b = Suc N" and "length a = Suc N"
    and "length x_hist = Suc N" and "length y_hist = Suc N" and "a ! 0 \<noteq> 0"
  shows "difference_equation b a (map (\<lambda>u. u + s) x_hist) (map (\<lambda>u. u + s) y_hist) x =
           difference_equation b a x_hist y_hist (x - s) + s + s * (sum_list b - sum_list a) / a ! 0"
proof -
  from assms have ne: "b \<noteq> []" "a \<noteq> []" by auto
  have sums: "sum_list b = hd b + sum_list (tl b)" "sum_list a = hd a + sum_list (tl a)"
    by (rule sum_list_hd_tl [OF ne(1)], rule sum_list_hd_tl [OF ne(2)])
  from ne(2) assms(5) have a0: "hd a \<noteq> 0" by (simp add: hd_conv_nth)
  from assms have len: "length (tl b) = length (rev (tl x_hist))" "length (tl a) = length (rev (tl y_hist))"
    by simp_all
  define B where "B = sum_list (map2 (*) (tl b) (rev (tl x_hist)))"
  define A where "A = sum_list (map2 (*) (tl a) (rev (tl y_hist)))"
  have l: "difference_equation b a (map (\<lambda>u. u + s) x_hist) (map (\<lambda>u. u + s) y_hist) x =
      (hd b * x + (B + s * sum_list (tl b)) - (A + s * sum_list (tl a))) / hd a"
    using assms(1-4) len
    by (subst difference_equation_conv [where N = N])
       (simp_all add: foldl_plus_sum_list map_tl [symmetric] rev_map sum_list_map2_shift A_def B_def)
  have r: "difference_equation b a x_hist y_hist (x - s) = (hd b * (x - s) + B - A) / hd a"
    using assms(1-4)
    by (subst difference_equation_conv [where N = N])
       (simp_all add: foldl_plus_sum_list A_def B_def)
  from ne(2) have "a ! 0 = hd a" by (simp add: hd_conv_nth)
  with a0 show ?thesis
    by (simp add: l r sums field_simps)
qed

section \<open>Calls on buffers of equal length never fail\<close>

lemma Filter_Value_body_runs:
  fixes p :: "'a::{plus,times} Filter_Data_t"
  assumes "numerator p \<noteq> []" and "denominator p \<noteq> []" and "in_list p \<noteq> []" and "out_list p \<noteq> []"
    and "length (numerator p) \<le> cap" and "length (denominator p) \<le> cap"
    and "length (in_list p) \<le> cap" and "length (out_list p) \<le> cap"
  shows "\<exists>p' in_sum' out_sum'.
           Filter_Value_body cap (p, in_sum, out_sum) = Inr (p', in_sum', out_sum') \<and>
           length (numerator p') = length (numerator p) \<and>
           length (denominator p') = length (denominator p) \<and>
           length (in_list p') = length (in_list p) \<and>
           length (out_list p') = length (out_list p)"
proof -
  from assms(1) obtain b bs where b: "numerator p = b # bs" by (cases "numerator p") auto
  from assms(2) obtain a as where a: "denominator p = a # as" by (cases "denominator p") auto
  from assms(3) obtain xs x where x: "in_list p = xs @ [x]" by (cases "in_list p" rule: rev_cases) auto
  from assms(4) obtain ys y where y: "out_list p = ys @ [y]" by (cases "out_list p" rule: rev_cases) auto
  from assms(5-8) show ?thesis
    by (simp add: Filter_Value_body_def b a x y rb_pop_front_F_Cons rb_pop_back_F_snoc
        rb_push_back_F_room rb_push_front_F_room)
qed

lemma Filter_Value_loop_runs:
  fixes p :: "'a::{plus,times} Filter_Data_t"
  assumes "uint i < uint len - 1 \<longrightarrow>
             numerator p \<noteq> [] \<and> denominator p \<noteq> [] \<and> in_list p \<noteq> [] \<and> out_list p \<noteq> []"
    and "length (numerator p) \<le> cap" and "length (denominator p) \<le> cap"
    and "length (in_list p) \<le> cap" and "length (out_list p) \<le> cap"
  shows "\<exists>p' in_sum' out_sum'.
           Filter_Value_loop cap len i (p, in_sum, out_sum) = Inr (p', in_sum', out_sum') \<and>
           length (in_list p') = length (in_list p) \<and>
           length (out_list p') = length (out_list p)"
  using assms
proof (induction cap len i "(p, in_sum, out_sum)" arbitrary: p in_sum out_sum
    rule: Filter_Value_loop.induct)
  case (1 cap len i)
  show ?case
  proof (cases "uint i < uint len - 1")
    case False
    then show ?thesis
      by (subst Filter_Value_loop.simps) simp
  next
    case True
    with "1.prems" have ne: "numerator p \<noteq> []" "denominator p \<noteq> []" "in_list p \<noteq> []" "out_list p \<noteq> []"
      by simp_all
    from Filter_Value_body_runs [OF ne "1.prems"(2-5), of in_sum out_sum]
    obtain p' in_sum' out_sum' where
      body: "Filter_Value_body cap (p, in_sum, out_sum) = Inr (p', in_sum', out_sum')"
      and len: "length (numerator p') = length (numerator p)"
        "length (denominator p') = length (denominator p)"
        "length (in_list p') = length (in_list p)"
        "length (out_list p') = length (out_list p)"
      by blast
    from ne len have ne': "numerator p' \<noteq> [] \<and> denominator p' \<noteq> [] \<and> in_list p' \<noteq> [] \<and> out_list p' \<noteq> []"
      by (metis length_0_conv)
    from "1.hyps" [OF True body] ne' len "1.prems"(2-5)
    obtain p'' in_sum'' out_sum'' where
      "Filter_Value_loop cap len (i + 1) (p', in_sum', out_sum') = Inr (p'', in_sum'', out_sum'')"
      "length (in_list p'') = length (in_list p')" "length (out_list p'') = length (out_list p')"
      by auto
    with True body len show ?thesis
      by (subst Filter_Value_loop.simps) simp
  qed
qed

lemma Filter_Value_runs:
  fixes f :: "'a::{zero,plus,minus,times,inverse} Filter_Data_t"
  assumes "length (numerator f) = Suc N" and "length (denominator f) = Suc N"
    and "length (in_list f) = Suc N" and "length (out_list f) = Suc N" and "Suc N \<le> cap"
  shows "\<exists>y f'. Filter_Value cap f v = Inr (y, f')"
proof -
  from assms(1) obtain b0 bs where b: "numerator f = b0 # bs" "length bs = N"
    by (auto simp: length_Suc_conv)
  from assms(2) obtain a0 as where a: "denominator f = a0 # as" "length as = N"
    by (auto simp: length_Suc_conv)
  from assms(3) obtain x0 xs where x: "in_list f = x0 # xs" "length xs = N"
    by (auto simp: length_Suc_conv)
  from assms(4) obtain y0 ys where y: "out_list f = y0 # ys" "length ys = N"
    by (auto simp: length_Suc_conv)
  let ?len = "of_nat (Suc N) :: 8 word"
  let ?p = "f\<lparr>numerator := bs @ [b0], denominator := as @ [a0], in_list := xs, out_list := ys\<rparr>"
  have "xs \<noteq> [] \<and> ys \<noteq> []" if "uint (0 :: 8 word) < uint ?len - 1"
  proof (cases N)
    case 0
    with that show ?thesis by simp
  next
    case (Suc n)
    with x y show ?thesis by auto
  qed
  then have "uint (0 :: 8 word) < uint ?len - 1 \<longrightarrow>
      numerator ?p \<noteq> [] \<and> denominator ?p \<noteq> [] \<and> in_list ?p \<noteq> [] \<and> out_list ?p \<noteq> []"
    by simp
  from Filter_Value_loop_runs [OF this, of cap "0 + b0 * v" 0] assms(5) b a x y
  obtain p' in_sum' out_sum' where
    "Filter_Value_loop cap ?len 0 (?p, 0 + b0 * v, 0) = Inr (p', in_sum', out_sum')"
    "length (in_list p') = N" "length (out_list p') = N"
    by auto
  with assms(5) show ?thesis
    by (simp add: Filter_Value_def Let_def rb_length_F_def b a x y rb_pop_front_F_Cons
        rb_push_back_F_room del: of_nat_Suc)
qed

lemma Filter_SetTo_runs:
  assumes "length (in_list f) = length (out_list f)" and "length (in_list f) \<le> cap"
  shows "\<exists>f'. Filter_SetTo cap f c = Inr f'"
proof -
  let ?len = "of_nat (length (in_list f)) :: 8 word"
  have "unat ?len \<le> length (in_list f)"
    by (simp add: unat_of_nat)
  then have "Filter_SetTo_loop cap c ?len 0 (f\<lparr>in_list := in_list f, out_list := out_list f\<rparr>) =
           Inr (f\<lparr>in_list := drop (unat ?len) (in_list f) @ replicate (unat ?len) c,
                  out_list := drop (unat ?len) (out_list f) @ replicate (unat ?len) c\<rparr>)"
    using assms by (intro Filter_SetTo_loop_overwrites) simp_all
  then show ?thesis
    by (simp add: Filter_SetTo_def rb_length_F_def)
qed

section \<open>Running the code on concrete inputs\<close>

text \<open>The equations that evaluate a call on a concrete filter.\<close>

lemmas filter_eval =
  Filter_Init_def Filter_Init_loop.simps Filter_Init_body_def coeff_at_def
  Filter_ShiftBy_def Filter_ShiftBy_drain.simps Filter_ShiftBy_refill.simps
  Filter_SetTo_def Filter_SetTo_loop.simps Filter_SetTo_body_def
  Filter_Value_def Filter_Value_loop.simps Filter_Value_body_def
  Filter_Last_Output_def
  rb_initialize_F_def rb_length_F_def rb_push_back_F_def rb_push_front_F_def
  rb_pop_front_F_def rb_pop_back_F_def rb_get_F_def Let_def
  word_le_nat_alt word_less_nat_alt

section \<open>Verified claims\<close>

text \<open>
  \<^bold>\<open>C1\<close>. After \<^verbatim>\<open>Filter_Init\<close> with order \<open>N\<close> and any sequence of later calls,
  \<^verbatim>\<open>Filter_Value(filter, value)\<close> returns
  \<open>(b\<^sub>0 * x[n] + (\<Sum>i=1..N. b\<^sub>i * x[n-i]) - (\<Sum>i=1..N. a\<^sub>i * y[n-i])) / a\<^sub>0\<close>, where
  \<open>x[n]\<close> is \<open>value\<close> and \<open>x[n-i]\<close>, \<open>y[n-i]\<close> are the \<open>i\<close>-th most recent stored
  input and output; afterwards \<open>value\<close> and the returned output are the newest entries
  of the two histories and the oldest entry of each is gone. The sums are those of
  \<open>difference_equation\<close>; the statement holds in any arithmetic, also for \<open>a\<^sub>0 = 0\<close>.
\<close>

theorem Filter_Value_difference_equation:
  fixes f :: "'a::{zero,plus,minus,times,inverse} Filter_Data_t"
  assumes "Filter_Init cap p_filt numerator_coeffs denominator_coeffs order = Inr f0"
    and "run_calls cap f0 calls = Inr f"
  shows "Filter_Value cap f v =
           Inr (difference_equation (take (Suc (unat order)) numerator_coeffs)
                  (take (Suc (unat order)) denominator_coeffs) (in_list f) (out_list f) v,
                f\<lparr>in_list := tl (in_list f) @ [v],
                   out_list := tl (out_list f) @
                     [difference_equation (take (Suc (unat order)) numerator_coeffs)
                        (take (Suc (unat order)) denominator_coeffs) (in_list f) (out_list f) v]\<rparr>)"
proof -
  let ?b = "take (Suc (unat order)) numerator_coeffs"
  let ?a = "take (Suc (unat order)) denominator_coeffs"
  from reached_Ready [OF assms] have R: "Ready cap (unat order) ?b ?a f" .
  then have "difference_equation ?b ?a (in_list f) (out_list f) v =
     (foldl (+) (0 + hd ?b * v) (map2 (*) (tl ?b) (rev (tl (in_list f))))
       - foldl (+) 0 (map2 (*) (tl ?a) (rev (tl (out_list f))))) / hd ?a"
    by (intro difference_equation_conv [where N = "unat order"]) (simp_all add: Ready_def)
  with Filter_Value_Ready [OF R, of v] show ?thesis by simp
qed

text \<open>The theorem at work: a second-order filter after three updates and a shift.\<close>

theorem Filter_Value_difference_equation_witness:
  "Filter_Init 3 \<lparr>numerator = [], denominator = [], out_list = [], in_list = []\<rparr>
       [1, 2, 3 :: real] [2, 3, 4] 2 =
     Inr \<lparr>numerator = [1, 2, 3], denominator = [2, 3, 4], out_list = [0, 0, 0], in_list = [0, 0, 0]\<rparr> \<and>
   run_calls 3 \<lparr>numerator = [1, 2, 3 :: real], denominator = [2, 3, 4], out_list = [0, 0, 0], in_list = [0, 0, 0]\<rparr>
       [Call_Value 1, Call_Value 10, Call_ShiftBy 1, Call_Value 100] =
     Inr \<lparr>numerator = [1, 2, 3], denominator = [2, 3, 4],
          out_list = [3 / 2, 25 / 4, 413 / 8], in_list = [2, 11, 100]\<rparr> \<and>
   Filter_Value 3 \<lparr>numerator = [1, 2, 3 :: real], denominator = [2, 3, 4],
          out_list = [3 / 2, 25 / 4, 413 / 8], in_list = [2, 11, 100]\<rparr> 1000 =
     Inr (8425 / 16, \<lparr>numerator = [1, 2, 3], denominator = [2, 3, 4],
          out_list = [25 / 4, 413 / 8, 8425 / 16], in_list = [11, 100, 1000]\<rparr>)"
proof -
  have init: "Filter_Init 3 \<lparr>numerator = [], denominator = [], out_list = [], in_list = []\<rparr>
       [1, 2, 3 :: real] [2, 3, 4] 2 =
     Inr \<lparr>numerator = [1, 2, 3], denominator = [2, 3, 4], out_list = [0, 0, 0], in_list = [0, 0, 0]\<rparr>"
    by (simp add: filter_eval)
  have calls: "run_calls 3 \<lparr>numerator = [1, 2, 3 :: real], denominator = [2, 3, 4], out_list = [0, 0, 0], in_list = [0, 0, 0]\<rparr>
       [Call_Value 1, Call_Value 10, Call_ShiftBy 1, Call_Value 100] =
     Inr \<lparr>numerator = [1, 2, 3], denominator = [2, 3, 4],
          out_list = [3 / 2, 25 / 4, 413 / 8], in_list = [2, 11, 100]\<rparr>"
    by (simp add: filter_eval)
  have upt: "[1..<Suc 2] = [1, 2]" by (simp add: upt_rec)
  from Filter_Value_difference_equation [OF init calls, of 1000] init calls
  show ?thesis
    by (simp add: difference_equation_def upt)
qed


text \<open>
  \<^bold>\<open>C2\<close>. After \<^verbatim>\<open>Filter_Init\<close> with order \<open>N\<close>, every sequence of
  \<^verbatim>\<open>Filter_Value\<close>, \<^verbatim>\<open>Filter_ShiftBy\<close> and \<^verbatim>\<open>Filter_SetTo\<close> calls runs without
  error, and after each of its calls (that is, after every prefix \<open>take k calls\<close>,
  the empty one included) all four buffers hold \<open>N + 1\<close> elements.
\<close>

theorem buffer_lengths_constant:
  fixes f0 :: "'a::{zero,plus,minus,times,inverse} Filter_Data_t"
  assumes "Filter_Init cap p_filt numerator_coeffs denominator_coeffs order = Inr f0"
  shows "\<exists>f. run_calls cap f0 (take k calls) = Inr f \<and>
             length (numerator f) = unat order + 1 \<and> length (denominator f) = unat order + 1 \<and>
             length (in_list f) = unat order + 1 \<and> length (out_list f) = unat order + 1"
proof -
  from run_calls_Ready [OF Filter_Init_Ready [OF assms], of "take k calls"]
  show ?thesis by (auto simp: Ready_def)
qed

text \<open>The theorem at work on a first-order filter, after two of three calls.\<close>

theorem buffer_lengths_constant_witness:
  "Filter_Init 4 \<lparr>numerator = [], denominator = [], out_list = [], in_list = []\<rparr>
       [1, 1 :: real] [2, 0] 1 =
     Inr \<lparr>numerator = [1, 1], denominator = [2, 0], out_list = [0, 0], in_list = [0, 0]\<rparr> \<and>
   (\<exists>f. run_calls 4 \<lparr>numerator = [1, 1 :: real], denominator = [2, 0], out_list = [0, 0], in_list = [0, 0]\<rparr>
           (take 2 [Call_Value 6, Call_ShiftBy 1, Call_SetTo 0]) = Inr f \<and>
        length (numerator f) = 2 \<and> length (denominator f) = 2 \<and>
        length (in_list f) = 2 \<and> length (out_list f) = 2)"
proof -
  have init: "Filter_Init 4 \<lparr>numerator = [], denominator = [], out_list = [], in_list = []\<rparr>
       [1, 1 :: real] [2, 0] 1 =
     Inr \<lparr>numerator = [1, 1], denominator = [2, 0], out_list = [0, 0], in_list = [0, 0]\<rparr>"
    by (simp add: filter_eval)
  from buffer_lengths_constant [OF init, of 2 "[Call_Value 6, Call_ShiftBy 1, Call_SetTo 0]"] init
  show ?thesis by (simp add: numeral_2_eq_2)
qed

text \<open>
  \<^bold>\<open>C3\<close>. After \<^verbatim>\<open>Filter_Init\<close> and any number of \<^verbatim>\<open>Filter_Value\<close> calls (here:
  any calls at all), the numerator and denominator buffers, read from oldest to
  newest, are the first \<open>order + 1\<close> entries of the arrays passed to
  \<^verbatim>\<open>Filter_Init\<close>, in their order: the rotation inside a call is undone when the call
  returns. For arrays of exactly \<open>order + 1\<close> entries this is the array itself.
\<close>

theorem coefficients_unchanged:
  fixes f0 :: "'a::{zero,plus,minus,times,inverse} Filter_Data_t"
  assumes "Filter_Init cap p_filt numerator_coeffs denominator_coeffs order = Inr f0"
  shows "\<exists>f. run_calls cap f0 calls = Inr f \<and>
             numerator f = take (unat order + 1) numerator_coeffs \<and>
             denominator f = take (unat order + 1) denominator_coeffs"
proof -
  from run_calls_Ready [OF Filter_Init_Ready [OF assms], of calls]
  show ?thesis by (auto simp: Ready_def)
qed

text \<open>The theorem at work on the moving-average coefficients of order 2.\<close>

theorem coefficients_unchanged_witness:
  "Filter_Init 3 \<lparr>numerator = [], denominator = [], out_list = [], in_list = []\<rparr>
       [5, 0, 0 :: real] [1, 1, 1] 2 =
     Inr \<lparr>numerator = [5, 0, 0], denominator = [1, 1, 1], out_list = [0, 0, 0], in_list = [0, 0, 0]\<rparr> \<and>
   (\<exists>f. run_calls 3 \<lparr>numerator = [5, 0, 0 :: real], denominator = [1, 1, 1], out_list = [0, 0, 0], in_list = [0, 0, 0]\<rparr>
           [Call_Value 1, Call_Value 1, Call_Value 1] = Inr f \<and>
        numerator f = [5, 0, 0] \<and> denominator f = [1, 1, 1])"
proof -
  have init: "Filter_Init 3 \<lparr>numerator = [], denominator = [], out_list = [], in_list = []\<rparr>
       [5, 0, 0 :: real] [1, 1, 1] 2 =
     Inr \<lparr>numerator = [5, 0, 0], denominator = [1, 1, 1], out_list = [0, 0, 0], in_list = [0, 0, 0]\<rparr>"
    by (simp add: filter_eval)
  from coefficients_unchanged [OF init, of "[Call_Value 1, Call_Value 1, Call_Value 1]"] init
  show ?thesis by simp
qed

text \<open>
  \<^bold>\<open>C4\<close>. Claim: for every order \<open>N\<close> and coefficient arrays of length \<open>N + 1\<close>,
  \<^verbatim>\<open>Filter_Init\<close> leaves the numerator and denominator buffers holding the
  coefficients in index order and both history buffers holding \<open>N + 1\<close> zeros.
  The code does so for every order up to 254 (\<open>Filter_Init_Inr_iff\<close>). At
  \<open>order = 255\<close> it does not: with buffers that have room for the 256 samples and
  arrays of 256 coefficients, the call does not end with the filter in the claimed
  state, because the loop counter wraps to 0 and the loop goes on inserting.
\<close>

theorem Filter_Init_order_255_not_loaded:
  "Filter_Init 256 p_filt (replicate 256 (1 :: real)) (replicate 256 1) 255 \<noteq>
     Inr (p_filt\<lparr>numerator := replicate 256 1, denominator := replicate 256 1,
                  out_list := replicate 256 0, in_list := replicate 256 0\<rparr>)"
  by (simp add: Filter_Init_Inr_iff)

text \<open>
  \<^bold>\<open>C5\<close>. Claim: for every value of \<open>order\<close> in the range of its type,
  \<^verbatim>\<open>Filter_Init\<close> terminates and succeeds after exactly \<open>order + 1\<close> insertions into
  each buffer. At \<open>order = 255\<close> the test \<^verbatim>\<open>i <= order\<close> of the \<^verbatim>\<open>uint8_t\<close> counter is
  always true, so the loop is never left through its exit: whatever the capacity and
  the arrays, the run ends in an error of a buffer or array access. (With buffers that
  do not report a full buffer, the C loop would not end at all.)
\<close>

theorem Filter_Init_order_255_fails:
  "\<exists>e. Filter_Init cap p_filt numerator_coeffs denominator_coeffs 255 = Inl e"
proof (cases "Filter_Init cap p_filt numerator_coeffs denominator_coeffs 255")
  case (Inl e)
  then show ?thesis by blast
next
  case (Inr f)
  then have "unat (255 :: 8 word) < 255"
    by (simp only: Filter_Init_Inr_iff)
  then show ?thesis by simp
qed

text \<open>
  \<^bold>\<open>C6\<close>. In a Ready filter \<^verbatim>\<open>Filter_ShiftBy(filter, shift_amount)\<close> adds
  \<open>shift_amount\<close> to every stored input and output sample, in place: the order of
  the samples and the lengths of both histories are those of before, and the
  coefficient buffers are the same (only \<open>in_list\<close> and \<open>out_list\<close> are
  updated).
\<close>

theorem Filter_ShiftBy_shifts_histories:
  fixes f :: "'a::{zero,plus,minus,times,inverse} Filter_Data_t"
  assumes "Filter_Init cap p_filt numerator_coeffs denominator_coeffs order = Inr f0"
    and "run_calls cap f0 calls = Inr f"
  shows "Filter_ShiftBy cap f shift_amount =
           Inr (f\<lparr>in_list := map (\<lambda>x. x + shift_amount) (in_list f),
                  out_list := map (\<lambda>y. y + shift_amount) (out_list f)\<rparr>)"
  using reached_Ready [OF assms] by (rule Filter_ShiftBy_Ready)

text \<open>The theorem at work: a shift by 10 after one update.\<close>

theorem Filter_ShiftBy_shifts_histories_witness:
  "Filter_Init 2 \<lparr>numerator = [], denominator = [], out_list = [], in_list = []\<rparr>
       [1, 1 :: real] [2, 0] 1 =
     Inr \<lparr>numerator = [1, 1], denominator = [2, 0], out_list = [0, 0], in_list = [0, 0]\<rparr> \<and>
   run_calls 2 \<lparr>numerator = [1, 1 :: real], denominator = [2, 0], out_list = [0, 0], in_list = [0, 0]\<rparr>
       [Call_Value 4] =
     Inr \<lparr>numerator = [1, 1], denominator = [2, 0], out_list = [0, 2], in_list = [0, 4]\<rparr> \<and>
   Filter_ShiftBy 2 \<lparr>numerator = [1, 1 :: real], denominator = [2, 0], out_list = [0, 2], in_list = [0, 4]\<rparr> 10 =
     Inr \<lparr>numerator = [1, 1], denominator = [2, 0], out_list = [10, 12], in_list = [10, 14]\<rparr>"
proof -
  have init: "Filter_Init 2 \<lparr>numerator = [], denominator = [], out_list = [], in_list = []\<rparr>
       [1, 1 :: real] [2, 0] 1 =
     Inr \<lparr>numerator = [1, 1], denominator = [2, 0], out_list = [0, 0], in_list = [0, 0]\<rparr>"
    by (simp add: filter_eval)
  have calls: "run_calls 2 \<lparr>numerator = [1, 1 :: real], denominator = [2, 0], out_list = [0, 0], in_list = [0, 0]\<rparr>
       [Call_Value 4] =
     Inr \<lparr>numerator = [1, 1], denominator = [2, 0], out_list = [0, 2], in_list = [0, 4]\<rparr>"
    by (simp add: filter_eval)
  from Filter_ShiftBy_shifts_histories [OF init calls, of 10] init calls
  show ?thesis by simp
qed

text \<open>
  \<^bold>\<open>C7\<close>. In a Ready filter \<^verbatim>\<open>Filter_SetTo(filter, c)\<close> replaces every stored input
  and output sample by \<open>c\<close> and changes neither the coefficients nor a buffer
  length; \<^verbatim>\<open>Filter_Last_Output\<close> then returns \<open>c\<close>, and a second
  \<^verbatim>\<open>Filter_SetTo\<close> with the same value leaves the state as the first one left it.
\<close>

theorem Filter_SetTo_resets_histories:
  fixes f :: "'a::{zero,plus,minus,times,inverse} Filter_Data_t"
  assumes "Filter_Init cap p_filt numerator_coeffs denominator_coeffs order = Inr f0"
    and "run_calls cap f0 calls = Inr f"
  shows "Filter_SetTo cap f c =
           Inr (f\<lparr>in_list := replicate (length (in_list f)) c,
                  out_list := replicate (length (out_list f)) c\<rparr>) \<and>
         Filter_Last_Output (f\<lparr>in_list := replicate (length (in_list f)) c,
                  out_list := replicate (length (out_list f)) c\<rparr>) = Inr c \<and>
         Filter_SetTo cap (f\<lparr>in_list := replicate (length (in_list f)) c,
                  out_list := replicate (length (out_list f)) c\<rparr>) c =
           Inr (f\<lparr>in_list := replicate (length (in_list f)) c,
                  out_list := replicate (length (out_list f)) c\<rparr>)"
proof -
  let ?g = "f\<lparr>in_list := replicate (length (in_list f)) c,
              out_list := replicate (length (out_list f)) c\<rparr>"
  from reached_Ready [OF assms] have R: "Ready cap (unat order)
      (take (Suc (unat order)) numerator_coeffs) (take (Suc (unat order)) denominator_coeffs) f" .
  then have len: "length (in_list f) = Suc (unat order)" "length (out_list f) = Suc (unat order)"
    by (simp_all add: Ready_def)
  from R len have R': "Ready cap (unat order)
      (take (Suc (unat order)) numerator_coeffs) (take (Suc (unat order)) denominator_coeffs) ?g"
    by (simp add: Ready_def)
  have 1: "Filter_SetTo cap f c = Inr ?g"
    using Filter_SetTo_Ready [OF R, of c] len by simp
  have 2: "Filter_Last_Output ?g = Inr c"
    using len by (subst Filter_Last_Output_last) simp_all
  have 3: "Filter_SetTo cap ?g c = Inr ?g"
    using Filter_SetTo_Ready [OF R', of c] len by simp
  from 1 2 3 show ?thesis by simp
qed

text \<open>The theorem at work: setting a first-order filter to 7 after one update.\<close>

theorem Filter_SetTo_resets_histories_witness:
  "Filter_Init 2 \<lparr>numerator = [], denominator = [], out_list = [], in_list = []\<rparr>
       [3, 1 :: real] [2, 1] 1 =
     Inr \<lparr>numerator = [3, 1], denominator = [2, 1], out_list = [0, 0], in_list = [0, 0]\<rparr> \<and>
   run_calls 2 \<lparr>numerator = [3, 1 :: real], denominator = [2, 1], out_list = [0, 0], in_list = [0, 0]\<rparr>
       [Call_Value 4] =
     Inr \<lparr>numerator = [3, 1], denominator = [2, 1], out_list = [0, 6], in_list = [0, 4]\<rparr> \<and>
   Filter_SetTo 2 \<lparr>numerator = [3, 1 :: real], denominator = [2, 1], out_list = [0, 6], in_list = [0, 4]\<rparr> 7 =
     Inr \<lparr>numerator = [3, 1], denominator = [2, 1], out_list = [7, 7], in_list = [7, 7]\<rparr> \<and>
   Filter_Last_Output \<lparr>numerator = [3, 1 :: real], denominator = [2, 1], out_list = [7, 7], in_list = [7, 7]\<rparr> =
     Inr 7 \<and>
   Filter_SetTo 2 \<lparr>numerator = [3, 1 :: real], denominator = [2, 1], out_list = [7, 7], in_list = [7, 7]\<rparr> 7 =
     Inr \<lparr>numerator = [3, 1], denominator = [2, 1], out_list = [7, 7], in_list = [7, 7]\<rparr>"
proof -
  have init: "Filter_Init 2 \<lparr>numerator = [], denominator = [], out_list = [], in_list = []\<rparr>
       [3, 1 :: real] [2, 1] 1 =
     Inr \<lparr>numerator = [3, 1], denominator = [2, 1], out_list = [0, 0], in_list = [0, 0]\<rparr>"
    by (simp add: filter_eval)
  have calls: "run_calls 2 \<lparr>numerator = [3, 1 :: real], denominator = [2, 1], out_list = [0, 0], in_list = [0, 0]\<rparr>
       [Call_Value 4] =
     Inr \<lparr>numerator = [3, 1], denominator = [2, 1], out_list = [0, 6], in_list = [0, 4]\<rparr>"
    by (simp add: filter_eval)
  have rep: "replicate 2 (7 :: real) = [7, 7]" by (simp add: numeral_2_eq_2)
  from Filter_SetTo_resets_histories [OF init calls, of 7] init calls
  show ?thesis by (simp add: rep)
qed

text \<open>
  \<^bold>\<open>C8\<close>. In a Ready filter \<^verbatim>\<open>Filter_Last_Output\<close> returns the element at logical
  index \<open>length - 1\<close> of the output history, the newest one; it returns a value only,
  the filter is not changed. Right after a call \<^verbatim>\<open>Filter_Value(filter, v)\<close> it returns
  the value that call returned.
\<close>

theorem Filter_Last_Output_newest:
  fixes f :: "'a::{zero,plus,minus,times,inverse} Filter_Data_t"
  assumes "Filter_Init cap p_filt numerator_coeffs denominator_coeffs order = Inr f0"
    and "run_calls cap f0 calls = Inr f"
  shows "Filter_Last_Output f = Inr (out_list f ! (length (out_list f) - 1)) \<and>
         (\<exists>y f'. Filter_Value cap f v = Inr (y, f') \<and> Filter_Last_Output f' = Inr y)"
proof -
  from reached_Ready [OF assms] have R: "Ready cap (unat order)
      (take (Suc (unat order)) numerator_coeffs) (take (Suc (unat order)) denominator_coeffs) f" .
  then have ne: "out_list f \<noteq> []" by (auto simp: Ready_def)
  then have 1: "Filter_Last_Output f = Inr (out_list f ! (length (out_list f) - 1))"
    by (simp add: Filter_Last_Output_last last_conv_nth)
  have 2: "\<exists>y f'. Filter_Value cap f v = Inr (y, f') \<and> Filter_Last_Output f' = Inr y"
    by (simp add: Filter_Value_Ready [OF R] Filter_Last_Output_last)
  from 1 2 show ?thesis by simp
qed

text \<open>The theorem at work on a first-order filter after one update.\<close>

theorem Filter_Last_Output_newest_witness:
  "Filter_Init 2 \<lparr>numerator = [], denominator = [], out_list = [], in_list = []\<rparr>
       [1, 3 :: real] [4, 1] 1 =
     Inr \<lparr>numerator = [1, 3], denominator = [4, 1], out_list = [0, 0], in_list = [0, 0]\<rparr> \<and>
   run_calls 2 \<lparr>numerator = [1, 3 :: real], denominator = [4, 1], out_list = [0, 0], in_list = [0, 0]\<rparr>
       [Call_Value 8] =
     Inr \<lparr>numerator = [1, 3], denominator = [4, 1], out_list = [0, 2], in_list = [0, 8]\<rparr> \<and>
   Filter_Last_Output \<lparr>numerator = [1, 3 :: real], denominator = [4, 1], out_list = [0, 2], in_list = [0, 8]\<rparr> =
     Inr 2 \<and>
   (\<exists>y f'. Filter_Value 2 \<lparr>numerator = [1, 3 :: real], denominator = [4, 1], out_list = [0, 2], in_list = [0, 8]\<rparr> 2 =
       Inr (y, f') \<and> Filter_Last_Output f' = Inr y)"
proof -
  have init: "Filter_Init 2 \<lparr>numerator = [], denominator = [], out_list = [], in_list = []\<rparr>
       [1, 3 :: real] [4, 1] 1 =
     Inr \<lparr>numerator = [1, 3], denominator = [4, 1], out_list = [0, 0], in_list = [0, 0]\<rparr>"
    by (simp add: filter_eval)
  have calls: "run_calls 2 \<lparr>numerator = [1, 3 :: real], denominator = [4, 1], out_list = [0, 0], in_list = [0, 0]\<rparr>
       [Call_Value 8] =
     Inr \<lparr>numerator = [1, 3], denominator = [4, 1], out_list = [0, 2], in_list = [0, 8]\<rparr>"
    by (simp add: filter_eval)
  from Filter_Last_Output_newest [OF init calls, of 2] init calls
  show ?thesis by simp
qed




text \<open>
  \<^bold>\<open>C10\<close>. When all four buffers hold \<open>order + 1\<close> elements and the buffer capacity
  is at least \<open>order + 1\<close>, no buffer operation issued by \<^verbatim>\<open>Filter_Value\<close>,
  \<^verbatim>\<open>Filter_ShiftBy\<close> or \<^verbatim>\<open>Filter_SetTo\<close> removes from an empty buffer or inserts
  into a full one. In the model a failed buffer operation ends the call with \<open>Inl\<close>;
  each of the three calls ends with \<open>Inr\<close>. This holds for every \<open>order\<close> of the
  type, 255 included.
\<close>

theorem Ready_calls_raise_no_buffer_error:
  fixes f :: "'a::{zero,plus,minus,times,inverse} Filter_Data_t"
  assumes "length (numerator f) = unat order + 1" and "length (denominator f) = unat order + 1"
    and "length (in_list f) = unat order + 1" and "length (out_list f) = unat order + 1"
    and "unat order + 1 \<le> cap"
  shows "(\<exists>y f'. Filter_Value cap f v = Inr (y, f')) \<and>
         (\<exists>f'. Filter_ShiftBy cap f s = Inr f') \<and>
         (\<exists>f'. Filter_SetTo cap f c = Inr f')"
proof -
  have "\<exists>y f'. Filter_Value cap f v = Inr (y, f')"
    using assms by (intro Filter_Value_runs [where N = "unat order"]) simp_all
  moreover have "\<exists>f'. Filter_ShiftBy cap f s = Inr f'"
    using assms by (simp add: Filter_ShiftBy_adds)
  moreover have "\<exists>f'. Filter_SetTo cap f c = Inr f'"
    using assms by (intro Filter_SetTo_runs) simp_all
  ultimately show ?thesis by simp
qed

text \<open>The theorem at work on a first-order filter in buffers of capacity 2.\<close>

theorem Ready_calls_raise_no_buffer_error_witness:
  "length (numerator \<lparr>numerator = [1, 2 :: real], denominator = [1, 0], out_list = [4, 5], in_list = [6, 7]\<rparr>) = unat (1 :: 8 word) + 1 \<and>
   length (denominator \<lparr>numerator = [1, 2 :: real], denominator = [1, 0], out_list = [4, 5], in_list = [6, 7]\<rparr>) = unat (1 :: 8 word) + 1 \<and>
   length (in_list \<lparr>numerator = [1, 2 :: real], denominator = [1, 0], out_list = [4, 5], in_list = [6, 7]\<rparr>) = unat (1 :: 8 word) + 1 \<and>
   length (out_list \<lparr>numerator = [1, 2 :: real], denominator = [1, 0], out_list = [4, 5], in_list = [6, 7]\<rparr>) = unat (1 :: 8 word) + 1 \<and>
   unat (1 :: 8 word) + 1 \<le> (2 :: nat) \<and>
   (\<exists>y f'. Filter_Value 2 \<lparr>numerator = [1, 2 :: real], denominator = [1, 0], out_list = [4, 5], in_list = [6, 7]\<rparr> 3 = Inr (y, f')) \<and>
   (\<exists>f'. Filter_ShiftBy 2 \<lparr>numerator = [1, 2 :: real], denominator = [1, 0], out_list = [4, 5], in_list = [6, 7]\<rparr> 3 = Inr f') \<and>
   (\<exists>f'. Filter_SetTo 2 \<lparr>numerator = [1, 2 :: real], denominator = [1, 0], out_list = [4, 5], in_list = [6, 7]\<rparr> 3 = Inr f')"
  using Ready_calls_raise_no_buffer_error [of "\<lparr>numerator = [1, 2 :: real], denominator = [1, 0], out_list = [4, 5], in_list = [6, 7]\<rparr>" 1 2 3 3 3]
  by simp

end
